theory Spec2Isabelle
  imports Complex_Main
begin

section \<open>The waveform functions of plotting/plottest.py\<close>

subsection \<open>Constants\<close>

definition A4_PITCH :: real where
  "A4_PITCH = 69"

definition A4_FREQ :: real where
  "A4_FREQ = 440.0"

subsection \<open>The square wave in exact arithmetic\<close>





section \<open>Python floats\<close>

text \<open>
  Python's \<open>float\<close> is the IEEE 754 binary64 format. Everything else in the program is
  sensitive to rounding, overflow and the non-finite values, so the functions are modelled a
  second time on these floats; the names carry the suffix \<open>_fp\<close> where the exact reading
  above already has the source's name.
\<close>

subsection \<open>Rounding to nearest, ties to even\<close>

text \<open>
  The nearest integer, a tie going to the even one.
\<close>

definition round_even :: "real \<Rightarrow> int" where
  "round_even q =
     (let n = \<lfloor>q\<rfloor>; r = q - of_int n
      in if r < 1 / 2 then n else if 1 / 2 < r then n + 1 else if even n then n else n + 1)"

text \<open>
  The binade of a non-zero real: \<open>2 ^ e \<le> \<bar>x\<bar> < 2 ^ (e + 1)\<close>, with every subnormal in
  the lowest binade -1022. A float of that binade is a multiple of \<open>2 ^ (e - 52)\<close> (53
  significant bits), and \<open>rne\<close> is the nearest such multiple.
\<close>

definition expo :: "real \<Rightarrow> int" where
  "expo x = max \<lfloor>log 2 \<bar>x\<bar>\<rfloor> (- 1022)"

definition ulp :: "real \<Rightarrow> real" where
  "ulp x = 2 powr (of_int (expo x) - 52)"

definition rne :: "real \<Rightarrow> real" where
  "rne x = of_int (round_even (x / ulp x)) * ulp x"

subsection \<open>Float values and errors\<close>

text \<open>
  A float is a finite real, an infinity or a NaN. The two zeros are not told apart: no
  operation of the program depends on the sign of a zero. The functions below round every
  result, so they can be applied to any finite real; the floats are the reals fixed by
  \<open>rne\<close> below the overflow threshold.
\<close>

datatype pyfloat = Fin real | PInf | NInf | NaN

datatype error = OverflowError | ValueError

definition overflow_threshold :: real where
  "overflow_threshold = 2 ^ 1024"

text \<open>The rounded result of an exact operation; at the threshold it is an infinity.\<close>

definition rnd :: "real \<Rightarrow> pyfloat" where
  "rnd x =
     (let y = rne x
      in if overflow_threshold \<le> y then PInf
         else if y \<le> - overflow_threshold then NInf
         else Fin y)"

subsection \<open>Arithmetic\<close>

text \<open>
  \<open>+\<close>, \<open>-\<close>, \<open>*\<close> on Python floats never raise: they return infinities and NaN as IEEE
  754 prescribes.
\<close>

fun fadd :: "pyfloat \<Rightarrow> pyfloat \<Rightarrow> pyfloat" where
  "fadd NaN b = NaN"
| "fadd a NaN = NaN"
| "fadd (Fin x) (Fin y) = rnd (x + y)"
| "fadd PInf NInf = NaN"
| "fadd NInf PInf = NaN"
| "fadd PInf b = PInf"
| "fadd a PInf = PInf"
| "fadd NInf b = NInf"
| "fadd a NInf = NInf"

fun fneg :: "pyfloat \<Rightarrow> pyfloat" where
  "fneg (Fin x) = Fin (- x)"
| "fneg PInf = NInf"
| "fneg NInf = PInf"
| "fneg NaN = NaN"

definition fsub :: "pyfloat \<Rightarrow> pyfloat \<Rightarrow> pyfloat" where
  "fsub a b = fadd a (fneg b)"

fun fmul :: "pyfloat \<Rightarrow> pyfloat \<Rightarrow> pyfloat" where
  "fmul NaN b = NaN"
| "fmul a NaN = NaN"
| "fmul (Fin x) (Fin y) = rnd (x * y)"
| "fmul (Fin x) PInf = (if x = 0 then NaN else if 0 < x then PInf else NInf)"
| "fmul (Fin x) NInf = (if x = 0 then NaN else if 0 < x then NInf else PInf)"
| "fmul PInf (Fin y) = (if y = 0 then NaN else if 0 < y then PInf else NInf)"
| "fmul NInf (Fin y) = (if y = 0 then NaN else if 0 < y then NInf else PInf)"
| "fmul PInf PInf = PInf"
| "fmul PInf NInf = NInf"
| "fmul NInf PInf = NInf"
| "fmul NInf NInf = PInf"

text \<open>
  Division by a finite non-zero constant: the divisors of the program are the literals
  \<open>12.0\<close> and \<open>2.0\<close> and \<open>math.pi\<close>, so Python's ZeroDivisionError cannot occur.
\<close>

fun fdiv :: "pyfloat \<Rightarrow> real \<Rightarrow> pyfloat" where
  "fdiv (Fin x) d = rnd (x / d)"
| "fdiv PInf d = (if 0 < d then PInf else NInf)"
| "fdiv NInf d = (if 0 < d then NInf else PInf)"
| "fdiv NaN d = NaN"

fun fabs :: "pyfloat \<Rightarrow> pyfloat" where
  "fabs (Fin x) = Fin \<bar>x\<bar>"
| "fabs PInf = PInf"
| "fabs NInf = PInf"
| "fabs NaN = NaN"

text \<open>The comparison \<open>a < b\<close>: false whenever a NaN is involved.\<close>

fun flt :: "pyfloat \<Rightarrow> pyfloat \<Rightarrow> bool" where
  "flt NaN b = False"
| "flt a NaN = False"
| "flt (Fin x) (Fin y) = (x < y)"
| "flt NInf NInf = False"
| "flt NInf b = True"
| "flt a NInf = False"
| "flt PInf b = False"
| "flt a PInf = True"

text \<open>
  The builtins \<open>max(a, b)\<close> and \<open>min(a, b)\<close>: the first argument is kept unless the second
  is greater (for \<open>min\<close>: smaller).
\<close>

definition py_max :: "pyfloat \<Rightarrow> pyfloat \<Rightarrow> pyfloat" where
  "py_max a b = (if flt a b then b else a)"

definition py_min :: "pyfloat \<Rightarrow> pyfloat \<Rightarrow> pyfloat" where
  "py_min a b = (if flt b a then b else a)"

subsection \<open>Library functions\<close>

text \<open>
  Modelled from the C standard and CPython's float objects, which are not part of the
  repository: \<open>2 ** x\<close> with a float \<open>x\<close>. An exponent zero gives 1.0 and the infinite
  exponents give infinity and 0.0 without calling the C library; otherwise the C library's
  \<open>pow\<close> is taken as correctly rounded, and a result that overflows raises OverflowError
  while one that underflows is returned.
\<close>

fun py_pow2 :: "pyfloat \<Rightarrow> error + pyfloat" where
  "py_pow2 (Fin x) =
     (if x = 0 then Inr (Fin 1)
      else case rnd (2 powr x) of PInf \<Rightarrow> Inl OverflowError | y \<Rightarrow> Inr y)"
| "py_pow2 PInf = Inr PInf"
| "py_pow2 NInf = Inr (Fin 0)"
| "py_pow2 NaN = Inr NaN"

text \<open>
  Modelled from the C standard and CPython's math module: \<open>math.sin\<close>, taken as correctly
  rounded on finite arguments. An infinite argument raises ValueError, a NaN is returned.
\<close>

fun math_sin :: "pyfloat \<Rightarrow> error + pyfloat" where
  "math_sin (Fin x) = Inr (rnd (sin x))"
| "math_sin PInf = Inl ValueError"
| "math_sin NInf = Inl ValueError"
| "math_sin NaN = Inr NaN"

text \<open>The floats \<open>math.pi\<close> and \<open>math.tau\<close>.\<close>

definition math_pi :: real where
  "math_pi = 884279719003555 / 2 ^ 48"

definition math_tau :: real where
  "math_tau = 884279719003555 / 2 ^ 47"

text \<open>
  The C library's \<open>fmod\<close>: the quotient is truncated towards zero and the result is exact.
\<close>

fun c_fmod :: "pyfloat \<Rightarrow> real \<Rightarrow> pyfloat" where
  "c_fmod (Fin x) y = Fin (x - y * of_int (if 0 \<le> x / y then \<lfloor>x / y\<rfloor> else \<lceil>x / y\<rceil>))"
| "c_fmod PInf y = NaN"
| "c_fmod NInf y = NaN"
| "c_fmod NaN y = NaN"

text \<open>
  Python's \<open>vx % wx\<close> on floats: \<open>fmod\<close>, and when the remainder is not zero and its sign
  differs from the divisor's, the divisor is added, which rounds. The only divisor of the
  program is \<open>math.tau\<close>, so the ZeroDivisionError of a zero divisor cannot occur.
\<close>

definition float_rem :: "pyfloat \<Rightarrow> real \<Rightarrow> pyfloat" where
  "float_rem vx wx =
     (case c_fmod vx wx of
        Fin m \<Rightarrow> if m \<noteq> 0 \<and> ((wx < 0) \<noteq> (m < 0)) then rnd (m + wx) else Fin m
      | other \<Rightarrow> other)"

subsection \<open>The functions of the program on floats\<close>

definition midi_pitch_to_freq_fp :: "pyfloat \<Rightarrow> error + pyfloat" where
  "midi_pitch_to_freq_fp pitch =
     (case py_pow2 (fdiv (fsub pitch (Fin A4_PITCH)) 12.0) of
        Inl e \<Rightarrow> Inl e
      | Inr y \<Rightarrow> Inr (fmul y (Fin A4_FREQ)))"

definition saw :: "pyfloat \<Rightarrow> pyfloat" where
  "saw n = fsub (fdiv (float_rem (fadd n (Fin math_pi)) math_tau) math_pi) (Fin 1.0)"

text \<open>The argument of the clamp in \<open>square\<close>: \<open>math.sin(n) * 100.0\<close>.\<close>

definition scaled_sine :: "pyfloat \<Rightarrow> error + pyfloat" where
  "scaled_sine n = (case math_sin n of Inl e \<Rightarrow> Inl e | Inr s \<Rightarrow> Inr (fmul s (Fin 100.0)))"

definition square_fp :: "pyfloat \<Rightarrow> error + pyfloat" where
  "square_fp n =
     (case scaled_sine n of
        Inl e \<Rightarrow> Inl e
      | Inr y \<Rightarrow> Inr (fsub (py_min (Fin 2.0) (py_max (Fin 0.0) y)) (Fin 1.0)))"

definition triangle :: "pyfloat \<Rightarrow> pyfloat" where
  "triangle n = fsub (fmul (fabs (saw (fadd n (fdiv (Fin math_pi) 2.0)))) (Fin 2.0)) (Fin 1.0)"

text \<open>The argument of every waveform: \<open>t * midi_pitch_to_freq(note_value) * math.tau\<close>.\<close>

definition phase :: "pyfloat \<Rightarrow> pyfloat \<Rightarrow> pyfloat" where
  "phase t fr = fmul (fmul t fr) (Fin math_tau)"

definition f :: "pyfloat \<Rightarrow> pyfloat \<Rightarrow> error + pyfloat" where
  "f t note_value =
     (case midi_pitch_to_freq_fp note_value of
        Inl e \<Rightarrow> Inl e
      | Inr fr \<Rightarrow> math_sin (phase t fr))"

definition f2 :: "pyfloat \<Rightarrow> pyfloat \<Rightarrow> error + pyfloat" where
  "f2 t note_value =
     (case midi_pitch_to_freq_fp note_value of
        Inl e \<Rightarrow> Inl e
      | Inr fr \<Rightarrow> Inr (saw (phase t fr)))"

definition f3_fp :: "pyfloat \<Rightarrow> pyfloat \<Rightarrow> error + pyfloat" where
  "f3_fp t note_value =
     (case midi_pitch_to_freq_fp note_value of
        Inl e \<Rightarrow> Inl e
      | Inr fr \<Rightarrow> square_fp (phase t fr))"

definition f4 :: "pyfloat \<Rightarrow> pyfloat \<Rightarrow> error + pyfloat" where
  "f4 t note_value =
     (case midi_pitch_to_freq_fp note_value of
        Inl e \<Rightarrow> Inl e
      | Inr fr \<Rightarrow> Inr (triangle (phase t fr)))"

section \<open>Properties of the exact square wave\<close>






section \<open>Properties of rounding\<close>

lemma round_even_cases: "round_even q = \<lfloor>q\<rfloor> \<or> round_even q = \<lfloor>q\<rfloor> + 1"
  by (simp add: round_even_def Let_def)

lemma round_even_of_int [simp]: "round_even (of_int n) = n"
  by (simp add: round_even_def)

lemma round_even_mono:
  assumes "q1 \<le> q2"
  shows "round_even q1 \<le> round_even q2"
proof (cases "\<lfloor>q1\<rfloor> = \<lfloor>q2\<rfloor>")
  case True
  have "q1 - of_int \<lfloor>q2\<rfloor> \<le> q2 - of_int \<lfloor>q2\<rfloor>"
    using assms by simp
  then show ?thesis
    using True by (auto simp: round_even_def Let_def)
next
  case False
  have "\<lfloor>q1\<rfloor> \<le> \<lfloor>q2\<rfloor>"
    using assms by (rule floor_mono)
  with False have "\<lfloor>q1\<rfloor> + 1 \<le> \<lfloor>q2\<rfloor>"
    by linarith
  moreover have "round_even q1 \<le> \<lfloor>q1\<rfloor> + 1"
    using round_even_cases [of q1] by linarith
  moreover have "\<lfloor>q2\<rfloor> \<le> round_even q2"
    using round_even_cases [of q2] by linarith
  ultimately show ?thesis
    by linarith
qed

lemma round_even_minus: "round_even (- q) = - round_even q"
proof (cases "q = of_int \<lfloor>q\<rfloor>")
  case True
  then obtain n where "q = of_int n" ..
  then have "- q = of_int (- n)" by simp
  then have "round_even (- q) = - n"
    by (simp only: round_even_of_int)
  then show ?thesis
    using \<open>q = of_int n\<close> by simp
next
  case False
  define n where "n = \<lfloor>q\<rfloor>"
  define r where "r = q - of_int n"
  have r: "0 < r" "r < 1"
    using False unfolding r_def n_def by linarith+
  have fl: "\<lfloor>- q\<rfloor> = - n - 1"
    unfolding n_def using False by (simp add: floor_minus ceiling_altdef)
  have r': "- q - of_int (- n - 1) = 1 - r"
    by (simp add: r_def)
  have ev: "even (- n - 1) \<longleftrightarrow> odd n"
    by simp
  have a: "round_even q = (if r < 1 / 2 then n else if 1 / 2 < r then n + 1 else if even n then n else n + 1)"
    by (simp add: round_even_def Let_def n_def r_def)
  have b: "round_even (- q) = (if 1 - r < 1 / 2 then - n - 1 else if 1 / 2 < 1 - r then - n else if odd n then - n - 1 else - n)"
    unfolding round_even_def Let_def fl r' ev by simp
  show ?thesis
    unfolding a b using r by auto
qed

lemma ulp_pos: "0 < ulp x"
  by (simp add: ulp_def)

lemma expo_minus: "expo (- x) = expo x"
  by (simp add: expo_def)

lemma ulp_minus: "ulp (- x) = ulp x"
  by (simp add: ulp_def expo_minus)

lemma rne_minus: "rne (- x) = - rne x"
  by (simp add: rne_def ulp_minus round_even_minus)

lemma round_even_zero [simp]: "round_even 0 = 0"
  by (simp add: round_even_def)

lemma rne_zero [simp]: "rne 0 = 0"
  by (simp add: rne_def)

lemma ulp_scale:
  "2 powr 53 * ulp x = 2 powr (of_int (expo x) + 1)"
  "2 powr 52 * ulp x = 2 powr of_int (expo x)"
proof -
  have "2 powr 53 * 2 powr (of_int (expo x) - 52) = 2 powr (53 + (real_of_int (expo x) - 52))"
    by (simp only: powr_add)
  also have "53 + (real_of_int (expo x) - 52) = of_int (expo x) + 1"
    by simp
  finally show "2 powr 53 * ulp x = 2 powr (of_int (expo x) + 1)"
    by (simp only: ulp_def)
  have "2 powr 52 * 2 powr (of_int (expo x) - 52) = 2 powr (52 + (real_of_int (expo x) - 52))"
    by (simp only: powr_add)
  also have "52 + (real_of_int (expo x) - 52) = of_int (expo x)"
    by simp
  finally show "2 powr 52 * ulp x = 2 powr of_int (expo x)"
    by (simp only: ulp_def)
qed

lemma rne_nonneg: "0 \<le> x \<Longrightarrow> 0 \<le> rne x"
proof -
  assume "0 \<le> x"
  then have "0 \<le> x / ulp x"
    using ulp_pos [of x] by simp
  then have "round_even 0 \<le> round_even (x / ulp x)"
    by (rule round_even_mono)
  then have "0 \<le> round_even (x / ulp x)"
    using round_even_of_int [of 0] by simp
  then show ?thesis
    using ulp_pos [of x] by (simp add: rne_def)
qed

lemma expo_mono:
  assumes "0 < x" "x \<le> y"
  shows "expo x \<le> expo y"
proof -
  have "log 2 x \<le> log 2 y"
    using assms by simp
  then have "\<lfloor>log 2 x\<rfloor> \<le> \<lfloor>log 2 y\<rfloor>"
    by (rule floor_mono)
  then show ?thesis
    using assms by (simp add: expo_def)
qed

lemma below_next_binade:
  assumes "0 < x"
  shows "x < 2 powr (of_int (expo x) + 1)"
proof -
  have "log 2 x < of_int \<lfloor>log 2 x\<rfloor> + 1"
    by linarith
  also have "\<dots> \<le> of_int (expo x) + 1"
    using assms by (simp add: expo_def)
  finally have "2 powr log 2 x < 2 powr (of_int (expo x) + 1)"
    by (simp add: powr_less_mono)
  then show ?thesis
    using assms by simp
qed

lemma above_binade:
  assumes "0 < x" "- 1022 < expo x"
  shows "2 powr of_int (expo x) \<le> x"
proof -
  have "expo x = \<lfloor>log 2 x\<rfloor>"
    using assms by (simp add: expo_def max_def split: if_splits)
  then have "of_int (expo x) \<le> log 2 x"
    by simp
  then have "2 powr of_int (expo x) \<le> 2 powr log 2 x"
    by (simp add: powr_mono)
  then show ?thesis
    using assms by simp
qed

lemma rne_le_next_binade:
  assumes "0 < x"
  shows "rne x \<le> 2 powr (of_int (expo x) + 1)"
proof -
  have "x / ulp x < 2 powr (of_int (expo x) + 1) / ulp x"
    using below_next_binade [OF assms] ulp_pos [of x] by (simp add: divide_strict_right_mono)
  also have "2 powr (of_int (expo x) + 1) / ulp x = 2 powr 53"
    by (simp add: ulp_def flip: powr_diff)
  also have "\<dots> = of_int (2 ^ 53)"
    by simp
  finally have "round_even (x / ulp x) \<le> round_even (of_int (2 ^ 53))"
    by (intro round_even_mono) simp
  then have "round_even (x / ulp x) \<le> 2 ^ 53"
    by (simp only: round_even_of_int)
  then have "of_int (round_even (x / ulp x)) * ulp x \<le> of_int (2 ^ 53) * ulp x"
    using ulp_pos [of x] by (intro mult_right_mono) simp_all
  also have "of_int (2 ^ 53) * ulp x = 2 powr 53 * ulp x"
    by simp
  also have "\<dots> = 2 powr (of_int (expo x) + 1)"
    by (rule ulp_scale)
  finally show ?thesis
    by (simp add: rne_def)
qed

lemma rne_ge_binade:
  assumes "0 < x" "- 1022 < expo x"
  shows "2 powr of_int (expo x) \<le> rne x"
proof -
  have "2 powr of_int (expo x) / ulp x \<le> x / ulp x"
    using above_binade [OF assms] ulp_pos [of x] by (simp add: divide_right_mono)
  moreover have "2 powr of_int (expo x) / ulp x = 2 powr 52"
    by (simp add: ulp_def flip: powr_diff)
  moreover have "2 powr 52 = real_of_int (2 ^ 52)"
    by simp
  ultimately have "round_even (of_int (2 ^ 52)) \<le> round_even (x / ulp x)"
    by (intro round_even_mono) simp
  then have "2 ^ 52 \<le> round_even (x / ulp x)"
    by (simp only: round_even_of_int)
  then have "of_int (2 ^ 52) * ulp x \<le> of_int (round_even (x / ulp x)) * ulp x"
    using ulp_pos [of x] by (intro mult_right_mono) simp_all
  moreover have "of_int (2 ^ 52) * ulp x = 2 powr 52 * ulp x"
    by simp
  moreover have "2 powr 52 * ulp x = 2 powr of_int (expo x)"
    by (rule ulp_scale)
  ultimately show ?thesis
    by (simp add: rne_def)
qed

lemma rne_mono_pos:
  assumes "0 < x" "x \<le> y"
  shows "rne x \<le> rne y"
proof (cases "expo x = expo y")
  case True
  then have u: "ulp x = ulp y"
    by (simp add: ulp_def)
  have "x / ulp y \<le> y / ulp y"
    using assms ulp_pos [of y] by (simp add: divide_right_mono)
  then have "round_even (x / ulp y) \<le> round_even (y / ulp y)"
    by (rule round_even_mono)
  then show ?thesis
    using ulp_pos [of y] by (simp add: rne_def u)
next
  case False
  with expo_mono [OF assms] have lt: "expo x < expo y"
    by simp
  have "- 1022 \<le> expo x"
    by (simp add: expo_def)
  with lt have "- 1022 < expo y"
    by simp
  have "0 < y"
    using assms by simp
  have "rne x \<le> 2 powr (of_int (expo x) + 1)"
    using assms(1) by (rule rne_le_next_binade)
  also have "\<dots> \<le> 2 powr of_int (expo y)"
    using lt by (intro powr_mono) simp_all
  also have "\<dots> \<le> rne y"
    using \<open>0 < y\<close> \<open>- 1022 < expo y\<close> by (rule rne_ge_binade)
  finally show ?thesis .
qed

lemma rne_mono:
  assumes "x \<le> y"
  shows "rne x \<le> rne y"
proof -
  consider "0 < x" | "x \<le> 0" "0 \<le> y" | "y < 0"
    using assms by linarith
  then show ?thesis
  proof cases
    case 1
    then show ?thesis using assms by (rule rne_mono_pos)
  next
    case 2
    have "0 \<le> rne (- x)"
      using 2(1) by (intro rne_nonneg) simp
    then have "rne x \<le> 0"
      by (simp add: rne_minus)
    with rne_nonneg [OF 2(2)] show ?thesis
      by linarith
  next
    case 3
    then have "rne (- y) \<le> rne (- x)"
      using assms by (intro rne_mono_pos) simp_all
    then show ?thesis
      by (simp add: rne_minus)
  qed
qed

lemma expo_eq:
  assumes "2 powr of_int e \<le> \<bar>x\<bar>" "\<bar>x\<bar> < 2 powr (of_int e + 1)" "- 1022 \<le> e"
  shows "expo x = e"
proof -
  have "0 < (2::real) powr of_int e"
    by simp
  from this assms(1) have "0 < \<bar>x\<bar>"
    by (rule less_le_trans)
  then have "\<lfloor>log 2 \<bar>x\<bar>\<rfloor> = e"
    using assms(1,2) by (subst floor_log_eq_powr_iff) simp_all
  then show ?thesis
    using assms(3) by (simp add: expo_def)
qed

lemma expo_subnormal:
  assumes "\<bar>x\<bar> < 2 powr (- 1022)" "x \<noteq> 0"
  shows "expo x = - 1022"
proof -
  have "log 2 \<bar>x\<bar> < log 2 (2 powr (- 1022))"
    using assms by (subst log_less_cancel_iff) simp_all
  also have "log 2 (2 powr (- 1022)) = (- 1022 :: real)"
    by (rule log_powr_cancel) simp_all
  finally have "log 2 \<bar>x\<bar> < - 1022" .
  then have "\<lfloor>log 2 \<bar>x\<bar>\<rfloor> < - 1022"
    by (simp add: floor_less_iff)
  then show ?thesis
    by (simp add: expo_def)
qed

lemma rne_eval:
  assumes "2 powr of_int e \<le> \<bar>x\<bar>" "\<bar>x\<bar> < 2 powr (of_int e + 1)" "- 1022 \<le> e"
  shows "rne x = of_int (round_even (x / 2 powr (of_int e - 52))) * 2 powr (of_int e - 52)"
  by (simp add: rne_def ulp_def expo_eq [OF assms])

lemma rne_tiny:
  assumes "\<bar>x\<bar> < 2 powr (- 1075)"
  shows "rne x = 0"
proof (cases "x = 0")
  case True
  then show ?thesis by simp
next
  case False
  have "(2::real) powr (- 1075) \<le> 2 powr (- 1022)"
    by (rule powr_mono) simp_all
  with assms have "\<bar>x\<bar> < 2 powr (- 1022)"
    by (rule less_le_trans)
  then have e: "expo x = - 1022"
    using False by (rule expo_subnormal)
  have "real_of_int (- 1022) - 52 = - 1074"
    by simp
  then have u: "ulp x = 2 powr (- 1074)"
    by (simp only: ulp_def e)
  have "(2::real) powr (- 1075) = 2 powr (- 1 + - 1074)"
    by simp
  also have "\<dots> = 2 powr (- 1) * 2 powr (- 1074)"
    by (simp only: powr_add)
  also have "(2::real) powr (- 1) = 1 / 2"
    by (simp add: powr_minus_divide)
  finally have t: "(2::real) powr (- 1075) = 1 / 2 * ulp x"
    by (simp only: u)
  have "\<bar>x / ulp x\<bar> = \<bar>x\<bar> / ulp x"
    using ulp_pos [of x] by simp
  also have "\<dots> < (1 / 2 * ulp x) / ulp x"
    using assms ulp_pos [of x] unfolding t by (rule divide_strict_right_mono)
  also have "\<dots> = 1 / 2"
    using ulp_pos [of x] by simp
  finally have q: "\<bar>x / ulp x\<bar> < 1 / 2" .
  define v where "v = x / ulp x"
  have v: "- (1 / 2) < v" "v < 1 / 2"
    using q unfolding v_def by linarith+
  have "round_even v = 0"
  proof (cases "0 \<le> v")
    case True
    with v have "\<lfloor>v\<rfloor> = 0"
      by (intro floor_unique) simp_all
    with v True show ?thesis
      by (simp add: round_even_def Let_def)
  next
    case False
    with v have "\<lfloor>- v\<rfloor> = 0"
      by (intro floor_unique) simp_all
    with v False have "round_even (- v) = 0"
      by (simp add: round_even_def Let_def)
    then show ?thesis
      by (simp add: round_even_minus)
  qed
  then show ?thesis
    by (simp add: rne_def v_def)
qed

lemma expo_upper:
  assumes "x \<noteq> 0" "\<bar>x\<bar> < 2 powr (of_int m + 1)" "- 1022 \<le> m"
  shows "expo x \<le> m"
proof -
  have "log 2 \<bar>x\<bar> < log 2 (2 powr (of_int m + 1))"
    using assms(1,2) by (subst log_less_cancel_iff) simp_all
  also have "\<dots> = of_int m + 1"
    by (rule log_powr_cancel) simp_all
  finally have "log 2 \<bar>x\<bar> < of_int (m + 1)"
    by simp
  then have "\<lfloor>log 2 \<bar>x\<bar>\<rfloor> < m + 1"
    by (simp only: floor_less_iff)
  then show ?thesis
    using assms(3) by (simp add: expo_def)
qed

lemma rne_dyadic:
  assumes "\<bar>n\<bar> < 2 ^ 53" "- 1074 \<le> k"
  shows "rne (of_int n * 2 powr of_int k) = of_int n * 2 powr of_int k"
proof (cases "n = 0")
  case True
  then show ?thesis by simp
next
  case False
  define x where "x = real_of_int n * 2 powr of_int k"
  have x0: "x \<noteq> 0"
    using False by (simp add: x_def)
  have "\<bar>x\<bar> = real_of_int \<bar>n\<bar> * 2 powr of_int k"
    by (simp add: x_def abs_mult)
  also have "\<dots> < real_of_int (2 ^ 53) * 2 powr of_int k"
    using assms(1) by (intro mult_strict_right_mono) simp_all
  also have "real_of_int (2 ^ 53) = 2 powr 53"
    by simp
  also have "2 powr 53 * 2 powr of_int k = 2 powr (53 + real_of_int k)"
    by (simp only: powr_add)
  also have "53 + real_of_int k = of_int (k + 52) + 1"
    by simp
  finally have "\<bar>x\<bar> < 2 powr (of_int (k + 52) + 1)" .
  with x0 have "expo x \<le> k + 52"
    using assms(2) by (intro expo_upper) simp_all
  then obtain j :: nat where j: "int j = k + 52 - expo x"
    by (metis diff_ge_0_iff_ge nonneg_int_cases)
  define u where "u = ulp x"
  have u: "0 < u"
    by (simp add: u_def ulp_pos)
  have "real_of_int k = (of_int (expo x) - 52) + real j"
    using j by linarith
  then have "2 powr of_int k = 2 powr (of_int (expo x) - 52) * 2 powr real j"
    by (simp only: powr_add)
  also have "2 powr real j = 2 ^ j"
    by (simp add: powr_realpow)
  finally have k: "2 powr of_int k = u * 2 ^ j"
    by (simp only: ulp_def u_def)
  have xu: "x = real_of_int (n * 2 ^ j) * u"
    by (simp add: x_def k)
  then have "x / u = real_of_int (n * 2 ^ j)"
    using u by simp
  then have "round_even (x / u) = n * 2 ^ j"
    by (simp only: round_even_of_int)
  then have "rne x = real_of_int (n * 2 ^ j) * u"
    by (simp only: rne_def u_def)
  then have "rne x = x"
    by (simp only: xu [symmetric])
  then show ?thesis
    by (simp only: x_def)
qed

lemma rne_of_int:
  assumes "\<bar>n\<bar> < 2 ^ 53"
  shows "rne (of_int n) = of_int n"
  using rne_dyadic [OF assms, of 0] by simp

lemma rne_power2:
  assumes "- 1074 \<le> k"
  shows "rne (2 powr of_int k) = 2 powr of_int k"
  using rne_dyadic [of 1 k] assms by simp

lemma threshold_pos: "0 < overflow_threshold"
  by (simp add: overflow_threshold_def)

lemma rnd_finite:
  assumes "- overflow_threshold < rne x" "rne x < overflow_threshold"
  shows "rnd x = Fin (rne x)"
  using assms by (simp add: rnd_def Let_def)

lemma rnd_Fin_iff: "rnd x = Fin y \<longleftrightarrow> y = rne x \<and> - overflow_threshold < rne x \<and> rne x < overflow_threshold"
  by (auto simp: rnd_def Let_def)

lemma rnd_cases:
  "rnd x = PInf \<and> overflow_threshold \<le> rne x
   \<or> rnd x = NInf \<and> rne x \<le> - overflow_threshold
   \<or> rnd x = Fin (rne x) \<and> - overflow_threshold < rne x \<and> rne x < overflow_threshold"
  using threshold_pos by (auto simp: rnd_def Let_def)


lemma rnd_zero [simp]: "rnd 0 = Fin 0"
  using threshold_pos by (simp add: rnd_def)

section \<open>Properties of the float operations\<close>

lemma threshold_gt: "2 ^ 53 < overflow_threshold"
  unfolding overflow_threshold_def by (rule power_strict_increasing) simp_all

lemma rnd_of_int:
  assumes "\<bar>n\<bar> < 2 ^ 53"
  shows "rnd (of_int n) = Fin (of_int n)"
proof -
  have "\<bar>real_of_int n\<bar> < 2 ^ 53"
    using assms by (metis of_int_abs of_int_less_numeral_power_cancel_iff)
  then have "- overflow_threshold < real_of_int n" "real_of_int n < overflow_threshold"
    using threshold_gt by linarith+
  then show ?thesis
    by (simp add: rnd_def Let_def rne_of_int [OF assms])
qed

lemma rnd_dyadic:
  assumes "\<bar>n\<bar> < 2 ^ 53" "- 1074 \<le> k" "k \<le> 0"
  shows "rnd (of_int n * 2 powr of_int k) = Fin (of_int n * 2 powr of_int k)"
proof -
  have "(2::real) powr of_int k \<le> 2 powr 0"
    using assms(3) by (intro powr_mono) simp_all
  then have k1: "(2::real) powr of_int k \<le> 1"
    by simp
  have "\<bar>real_of_int n\<bar> < 2 ^ 53"
    using assms by (metis of_int_abs of_int_less_numeral_power_cancel_iff)
  moreover have "\<bar>real_of_int n * 2 powr of_int k\<bar> \<le> \<bar>real_of_int n\<bar> * 1"
    unfolding abs_mult using k1 by (intro mult_left_mono) simp_all
  ultimately have "\<bar>real_of_int n * 2 powr of_int k\<bar> < overflow_threshold"
    using threshold_gt by linarith
  then have "- overflow_threshold < real_of_int n * 2 powr of_int k"
    "real_of_int n * 2 powr of_int k < overflow_threshold"
    by linarith+
  then show ?thesis
    by (simp add: rnd_def Let_def rne_dyadic [OF assms(1,2)])
qed

lemma rnd_numeral [simp]:
  "rnd 1 = Fin 1" "rnd 2 = Fin 2" "rnd (- 1) = Fin (- 1)" "rnd 440 = Fin 440"
  "rnd 880 = Fin 880" "rnd 220 = Fin 220" "rnd 12 = Fin 12" "rnd (- 12) = Fin (- 12)"
  using rnd_of_int [of 1] rnd_of_int [of 2] rnd_of_int [of "- 1"] rnd_of_int [of 440]
    rnd_of_int [of 880] rnd_of_int [of 220] rnd_of_int [of 12] rnd_of_int [of "- 12"]
  by simp_all

lemma rnd_half [simp]: "rnd (1 / 2) = Fin (1 / 2)"
  using rnd_dyadic [of 1 "- 1"] by (simp add: powr_minus_divide)

lemma freq_fp_69: "midi_pitch_to_freq_fp (Fin 69) = Inr (Fin 440)"
  by (simp add: midi_pitch_to_freq_fp_def fsub_def A4_PITCH_def A4_FREQ_def)

lemma freq_fp_81: "midi_pitch_to_freq_fp (Fin 81) = Inr (Fin 880)"
  by (simp add: midi_pitch_to_freq_fp_def fsub_def A4_PITCH_def A4_FREQ_def)

lemma freq_fp_57: "midi_pitch_to_freq_fp (Fin 57) = Inr (Fin 220)"
  by (simp add: midi_pitch_to_freq_fp_def fsub_def A4_PITCH_def A4_FREQ_def powr_minus_divide)

lemma floor_remainder:
  assumes "0 < w"
  shows "0 \<le> a - w * of_int \<lfloor>a / w\<rfloor>" "a - w * of_int \<lfloor>a / w\<rfloor> < w"
proof -
  have lo: "w * of_int \<lfloor>a / w\<rfloor> \<le> w * (a / w)"
    using assms by (intro mult_left_mono) simp_all
  have "a / w < of_int \<lfloor>a / w\<rfloor> + 1"
    by linarith
  then have hi: "w * (a / w) < w * (of_int \<lfloor>a / w\<rfloor> + 1)"
    using assms by (intro mult_strict_left_mono)
  have aw: "w * (a / w) = a"
    using assms by simp
  show "0 \<le> a - w * of_int \<lfloor>a / w\<rfloor>"
    using lo aw by simp
  show "a - w * of_int \<lfloor>a / w\<rfloor> < w"
    using hi aw by (simp add: algebra_simps)
qed

lemma float_rem_floor:
  assumes "0 < w"
  shows "float_rem (Fin a) w =
    (if a < 0 \<and> a \<noteq> w * of_int \<lfloor>a / w\<rfloor> then rnd (a - w * of_int \<lfloor>a / w\<rfloor>)
     else Fin (a - w * of_int \<lfloor>a / w\<rfloor>))"
proof (cases "0 \<le> a / w")
  case True
  then have "0 \<le> a"
    using assms by (simp add: zero_le_divide_iff)
  moreover have "\<not> a - w * of_int \<lfloor>a / w\<rfloor> < 0"
    using floor_remainder(1) [OF assms, of a] by simp
  ultimately show ?thesis
    using True assms by (simp add: float_rem_def)
next
  case False
  then have neg: "a < 0"
    using assms by (simp add: zero_le_divide_iff not_le)
  define q where "q = a / w"
  have aq: "a = w * q"
    using assms by (simp add: q_def)
  show ?thesis
  proof (cases "q = of_int \<lfloor>q\<rfloor>")
    case True
    then have c: "\<lceil>q\<rceil> = \<lfloor>q\<rfloor>"
      by (simp add: ceiling_altdef)
    have z: "a - w * of_int \<lfloor>q\<rfloor> = 0"
      using True aq by simp
    then have "a = w * of_int \<lfloor>q\<rfloor>"
      by simp
    then show ?thesis
      using False z c by (simp add: float_rem_def flip: q_def)
  next
    case nonint: False
    then have c: "\<lceil>q\<rceil> = \<lfloor>q\<rfloor> + 1"
      by (simp add: ceiling_altdef)
    have ne: "a \<noteq> w * of_int \<lfloor>q\<rfloor>"
      using nonint aq assms by simp
    have "a - w * of_int \<lfloor>q\<rfloor> < w"
      unfolding q_def using assms by (rule floor_remainder)
    then have m: "a - w * of_int \<lceil>q\<rceil> < 0"
      by (simp add: c algebra_simps)
    have e: "a - w * of_int \<lceil>q\<rceil> + w = a - w * of_int \<lfloor>q\<rfloor>"
      by (simp add: c algebra_simps)
    have "float_rem (Fin a) w = rnd (a - w * of_int \<lceil>q\<rceil> + w)"
      using False m assms by (simp add: float_rem_def flip: q_def)
    also have "\<dots> = rnd (a - w * of_int \<lfloor>q\<rfloor>)"
      by (simp only: e)
    finally show ?thesis
      using ne neg by (simp flip: q_def)
  qed
qed


lemma math_pi_pos: "0 < math_pi"
  by (simp add: math_pi_def)

lemma math_tau_pos: "0 < math_tau"
  by (simp add: math_tau_def)

lemma math_tau_double: "math_tau = 2 * math_pi"
  by (simp add: math_tau_def math_pi_def)

lemma rne_math_pi: "rne math_pi = math_pi"
  using rne_dyadic [of 884279719003555 "- 48"] by (simp add: powr_minus_divide math_pi_def)


lemma math_tau_small: "math_tau < 8"
  by (simp add: math_tau_def)

lemma math_tau_below_threshold: "math_tau < overflow_threshold"
proof -
  have "(8::real) < 2 ^ 53"
    by simp
  then show ?thesis
    using math_tau_small threshold_gt by linarith
qed









lemma threshold_powr: "overflow_threshold = 2 powr 1024"
  by (simp add: overflow_threshold_def)



lemma freq_fp_unfold:
  "midi_pitch_to_freq_fp p =
     (case py_pow2 (fdiv (fsub p (Fin 69)) 12) of
        Inl e \<Rightarrow> Inl e
      | Inr y \<Rightarrow> Inr (fmul y (Fin 440)))"
  by (simp add: midi_pitch_to_freq_fp_def A4_PITCH_def A4_FREQ_def cong: sum.case_cong)


lemma rnd_power2:
  assumes "- 1074 \<le> k" "k < 1024"
  shows "rnd (2 powr of_int k) = Fin (2 powr of_int k)"
proof (rule trans [OF rnd_finite])
  have r: "rne (2 powr of_int k) = 2 powr of_int k"
    using assms(1) by (rule rne_power2)
  show "- overflow_threshold < rne (2 powr real_of_int k)"
    unfolding r using threshold_pos by (smt (verit) powr_gt_zero)
  have "(2::real) powr of_int k < 2 powr 1024"
    using assms(2) by (intro powr_less_mono) simp_all
  then show "rne (2 powr real_of_int k) < overflow_threshold"
    unfolding r threshold_powr .
  show "Fin (rne (2 powr real_of_int k)) = Fin (2 powr real_of_int k)"
    by (simp only: r)
qed

lemma rnd_overflow:
  assumes "2 powr 1024 \<le> x"
  shows "rnd x = PInf"
proof -
  have "rne (2 powr of_int 1024) \<le> rne x"
    using assms by (intro rne_mono) simp
  then have "2 powr of_int 1024 \<le> rne x"
    using rne_power2 [of 1024] by simp
  then have "overflow_threshold \<le> rne x"
    by (simp add: threshold_powr)
  then show ?thesis
    by (simp add: rnd_def)
qed

lemma pitch_12345_exponent: "fdiv (fsub (Fin 12345) (Fin 69)) 12 = Fin 1023"
  using rnd_of_int [of 12276] rnd_of_int [of 1023] by (simp add: fsub_def)

lemma pitch_12357_exponent: "fdiv (fsub (Fin 12357) (Fin 69)) 12 = Fin 1024"
  using rnd_of_int [of 12288] rnd_of_int [of 1024] by (simp add: fsub_def)

lemma pow2_1023: "py_pow2 (Fin 1023) = Inr (Fin (2 powr 1023))"
  using rnd_power2 [of 1023] by (simp del: powr_numeral)

lemma pow2_1024: "py_pow2 (Fin 1024) = Inl OverflowError"
proof -
  have "rnd (2 powr 1024) = PInf"
    by (rule rnd_overflow) simp
  then show ?thesis
    by (simp del: powr_numeral)
qed

lemma freq_fp_12345: "midi_pitch_to_freq_fp (Fin 12345) = Inr PInf"
proof -
  have "(2::real) powr 1024 = 2 powr 1023 * 2 powr 1"
    by (simp only: powr_add [symmetric]) simp
  also have "\<dots> \<le> 2 powr 1023 * 440"
    by (intro mult_left_mono) simp_all
  finally have "rnd (2 powr 1023 * 440) = PInf"
    by (rule rnd_overflow)
  then show ?thesis
    unfolding freq_fp_unfold pitch_12345_exponent pow2_1023
    by (simp del: powr_numeral)
qed

lemma freq_fp_12357: "midi_pitch_to_freq_fp (Fin 12357) = Inl OverflowError"
  unfolding freq_fp_unfold pitch_12357_exponent pow2_1024 by simp

lemma saw_NaN [simp]: "saw NaN = NaN"
  by (simp add: saw_def float_rem_def fsub_def)

lemma saw_PInf [simp]: "saw PInf = NaN"
  by (simp add: saw_def float_rem_def fsub_def)

lemma rnd_math_pi [simp]: "rnd math_pi = Fin math_pi"
proof (rule trans [OF rnd_finite])
  show "- overflow_threshold < rne math_pi"
    unfolding rne_math_pi using math_pi_pos threshold_pos by linarith
  show "rne math_pi < overflow_threshold"
    unfolding rne_math_pi using math_tau_below_threshold math_pi_pos by (simp add: math_tau_double)
  show "Fin (rne math_pi) = Fin math_pi"
    by (simp only: rne_math_pi)
qed

lemma rne_just_above_pi: "rne (math_pi + 1 / 2 ^ 53) = math_pi"
proof -
  define x :: real where "x = 28296951008113761 / 2 ^ 53"
  have x: "math_pi + 1 / 2 ^ 53 = x"
    by (simp add: math_pi_def x_def)
  have "rne x = of_int (round_even (x / 2 powr (of_int 1 - 52))) * 2 powr (of_int 1 - 52)"
    by (rule rne_eval) (simp_all add: x_def)
  also have "x / 2 powr (of_int 1 - 52) = 28296951008113761 / 4"
    by (simp add: x_def powr_minus_divide)
  also have "round_even (28296951008113761 / 4) = 7074237752028440"
    by (simp add: round_even_def Let_def)
  also have "real_of_int 7074237752028440 * 2 powr (of_int 1 - 52) = math_pi"
    by (simp add: math_pi_def powr_minus_divide)
  finally show ?thesis
    by (simp only: x)
qed

lemma fold_arg_absorbs:
  assumes "0 \<le> a" "a \<le> 1 / 2 ^ 53"
  shows "fadd (Fin a) (Fin math_pi) = Fin math_pi"
proof -
  have "rne math_pi \<le> rne (a + math_pi)"
    using assms(1) by (intro rne_mono) simp
  moreover have "rne (a + math_pi) \<le> rne (math_pi + 1 / 2 ^ 53)"
    using assms(2) by (intro rne_mono) simp
  ultimately have r: "rne (a + math_pi) = math_pi"
    unfolding rne_math_pi rne_just_above_pi by (rule antisym [rotated])
  have "rnd (a + math_pi) = Fin (rne (a + math_pi))"
  proof (rule rnd_finite)
    show "- overflow_threshold < rne (a + math_pi)"
      unfolding r using math_pi_pos threshold_pos by linarith
    show "rne (a + math_pi) < overflow_threshold"
      unfolding r using math_tau_below_threshold math_pi_pos by (simp add: math_tau_double)
  qed
  then show ?thesis
    by (simp add: r)
qed

lemma float_rem_pi: "float_rem (Fin math_pi) math_tau = Fin math_pi"
proof -
  have "math_pi / math_tau = 1 / 2"
    by (simp add: math_pi_def math_tau_def)
  then have "\<lfloor>math_pi / math_tau\<rfloor> = \<lfloor>1 / 2 :: real\<rfloor>"
    by (simp only:)
  then have "\<lfloor>math_pi / math_tau\<rfloor> = 0"
    by simp
  then show ?thesis
    using math_pi_pos by (simp add: float_rem_floor [OF math_tau_pos])
qed

lemma saw_at_pi_fold:
  assumes "fadd n (Fin math_pi) = Fin math_pi"
  shows "saw n = Fin 0"
proof -
  have "math_pi / math_pi = 1"
    using math_pi_pos by simp
  then show ?thesis
    unfolding saw_def assms float_rem_pi by (simp add: fsub_def)
qed

lemma saw_small:
  assumes "0 \<le> a" "a \<le> 1 / 2 ^ 53"
  shows "saw (Fin a) = Fin 0"
  using fold_arg_absorbs [OF assms] by (rule saw_at_pi_fold)

lemma rnd_half_pi: "rnd (math_pi / 2) = Fin (math_pi / 2)"
  using rnd_dyadic [of 884279719003555 "- 49"] by (simp add: powr_minus_divide math_pi_def)

lemma rnd_three_half_pi: "rnd (math_pi / 2 + math_pi) = Fin (3 * math_pi / 2)"
  using rnd_dyadic [of 2652839157010665 "- 49"] by (simp add: powr_minus_divide math_pi_def)

lemma float_rem_three_half_pi: "float_rem (Fin (3 * math_pi / 2)) math_tau = Fin (3 * math_pi / 2)"
proof -
  have "3 * math_pi / 2 / math_tau = 3 / 4"
    by (simp add: math_pi_def math_tau_def)
  then have "\<lfloor>3 * math_pi / 2 / math_tau\<rfloor> = \<lfloor>3 / 4 :: real\<rfloor>"
    by (simp only:)
  then have "\<lfloor>3 * math_pi / 2 / math_tau\<rfloor> = 0"
    by simp
  then show ?thesis
    using math_pi_pos by (simp add: float_rem_floor [OF math_tau_pos])
qed

lemma rnd_three_halves [simp]: "rnd (3 / 2) = Fin (3 / 2)"
  using rnd_dyadic [of 3 "- 1"] by (simp add: powr_minus_divide)

lemma saw_quarter: "saw (Fin (math_pi / 2)) = Fin (1 / 2)"
proof -
  have "3 * math_pi / 2 / math_pi = 3 / 2"
    using math_pi_pos by simp
  then have "rnd (3 * math_pi / 2 / math_pi) = Fin (3 / 2)"
    by (simp only: rnd_three_halves)
  then have "fdiv (Fin (3 * math_pi / 2)) math_pi = Fin (3 / 2)"
    by (simp only: fdiv.simps)
  moreover have "fadd (Fin (math_pi / 2)) (Fin math_pi) = Fin (3 * math_pi / 2)"
    by (simp only: fadd.simps rnd_three_half_pi)
  ultimately show ?thesis
    unfolding saw_def float_rem_three_half_pi by (simp add: float_rem_three_half_pi fsub_def)
qed

lemma triangle_zero: "triangle (Fin 0) = Fin 0"
proof -
  have "fadd (Fin 0) (fdiv (Fin math_pi) 2) = Fin (math_pi / 2)"
    by (simp add: rnd_half_pi)
  then have "triangle (Fin 0) = fsub (fmul (fabs (saw (Fin (math_pi / 2)))) (Fin 2)) (Fin 1)"
    by (simp add: triangle_def)
  then show ?thesis
    by (simp add: saw_quarter fsub_def)
qed

lemma square_fp_zero: "square_fp (Fin 0) = Inr (Fin (- 1))"
  by (simp add: square_fp_def scaled_sine_def py_max_def py_min_def fsub_def)

lemma phase_zero: "phase (Fin 0) (Fin fr) = Fin 0"
  by (simp add: phase_def)

lemma phase_zero_inf: "phase (Fin 0) PInf = NaN"
  by (simp add: phase_def)

lemma triangle_NaN [simp]: "triangle NaN = NaN"
  by (simp add: triangle_def fsub_def)

lemma triangle_PInf [simp]: "triangle PInf = NaN"
  by (simp add: triangle_def fsub_def rnd_half_pi)






section \<open>The claims\<close>












text \<open>
  C10, as stated: for every pitch the sawtooth and the triangle are 0 at time 0. On floats,
  at pitch 12345 the frequency is infinite, \<open>0.0 * inf\<close> is NaN, and both are NaN.
\<close>

theorem waveforms_at_time_zero_not_total:
  "f2 (Fin 0) (Fin 12345) = Inr NaN \<and> f4 (Fin 0) (Fin 12345) = Inr NaN"
  by (simp add: f2_def f4_def freq_fp_12345 phase_zero_inf)

text \<open>
  C10, amended: for every pitch whose frequency is a finite float, at time 0 the sawtooth
  and the triangle are exactly 0.0, the square wave is exactly -1.0 and the sine wave is 0.0:
  the square wave alone starts at its minimum.
\<close>

theorem waveforms_at_time_zero:
  assumes "midi_pitch_to_freq_fp p = Inr (Fin fr)"
  shows "f2 (Fin 0) p = Inr (Fin 0) \<and> f4 (Fin 0) p = Inr (Fin 0)
    \<and> f3_fp (Fin 0) p = Inr (Fin (- 1.0)) \<and> f (Fin 0) p = Inr (Fin 0)"
proof -
  have "saw (Fin 0) = Fin 0"
    by (rule saw_small) simp_all
  then show ?thesis
    by (simp add: f2_def f4_def f3_fp_def f_def assms phase_zero triangle_zero square_fp_zero)
qed

text \<open>Pitch 69 has the finite frequency 440.0.\<close>

theorem waveforms_at_time_zero_witness:
  "midi_pitch_to_freq_fp (Fin 69) = Inr (Fin 440)
   \<and> f2 (Fin 0) (Fin 69) = Inr (Fin 0) \<and> f4 (Fin 0) (Fin 69) = Inr (Fin 0)
   \<and> f3_fp (Fin 0) (Fin 69) = Inr (Fin (- 1.0)) \<and> f (Fin 0) (Fin 69) = Inr (Fin 0)"
  using waveforms_at_time_zero [OF freq_fp_69] freq_fp_69 by simp

end
